theory Spec2Isabelle
  imports Main "HOL-Library.Word"
begin

section \<open>Helpers for sequence types (py/sequence.c)\<close>

text \<open>
  A shallow embedding of the six functions of \<^verbatim>\<open>py/sequence.c\<close>.

  \<^item> The C types \<^verbatim>\<open>uint\<close> and \<^verbatim>\<open>int\<close>, and the pointer-sized
    \<^verbatim>\<open>machine_uint_t\<close> and \<^verbatim>\<open>machine_int_t\<close>, are words of a width \<open>'w\<close>
    that the port chooses (the headers that fix the widths are not among the
    sources, so the width stays a type parameter). A word carries no sign: an
    unsigned C comparison is \<open><\<close> on words, a signed one is \<open><s\<close>, and a
    conversion between the signed and the unsigned type of one width keeps the bits.
  \<^item> A pointer to an array together with its element count is a list together
    with the count. The functions read an array only below the count they are
    given; the caller owes them an array that long.
  \<^item> \<^verbatim>\<open>nlr_raise\<close> does not return: a function that may raise returns a sum,
    \<open>Inl\<close> the exception.
\<close>

subsection \<open>Objects, slices and exceptions\<close>

text \<open>
  Modelled from the spec: the object representation of \<^verbatim>\<open>obj.h\<close> (\<^verbatim>\<open>mp_obj_t\<close>,
  \<^verbatim>\<open>mp_const_none\<close>, \<^verbatim>\<open>MP_OBJ_NEW_SMALL_INT\<close>, \<^verbatim>\<open>MP_OBJ_SMALL_INT_VALUE\<close>) is
  missing. In the specification a slice bound is "unspecified" or an integer, and a
  step is "unspecified", \<open>1\<close> or something the resolver does not support. So an
  object is \<^verbatim>\<open>None\<close>, a small integer, or anything else. The code never tests
  whether a slice field is a small integer: it compares the field with
  \<^verbatim>\<open>mp_const_none\<close> (and the step with \<^verbatim>\<open>MP_OBJ_NEW_SMALL_INT(1)\<close>) by identity and
  otherwise reads it with \<^verbatim>\<open>MP_OBJ_SMALL_INT_VALUE\<close>. The argument of
  \<open>MP_OBJ_NEW_SMALL_INT\<close> is the \<^verbatim>\<open>machine_int_t\<close> that \<^verbatim>\<open>MP_OBJ_SMALL_INT_VALUE\<close>
  reads back; the argument of \<open>MP_OBJ_OTHER\<close> is the \<^verbatim>\<open>machine_int_t\<close> that the
  same macro yields on the bits of an object that is neither.
\<close>

datatype 'i mp_obj_t =
    mp_const_none
  | MP_OBJ_NEW_SMALL_INT 'i
  | MP_OBJ_OTHER 'i

text \<open>
  Modelled from the spec: the slice object and \<^verbatim>\<open>mp_obj_slice_get\<close> of
  \<^verbatim>\<open>objslice.c\<close> are missing. In the specification a slice is the triple
  \<open>(start, stop, step)\<close>; \<^verbatim>\<open>mp_obj_slice_get\<close> hands out the three fields.
\<close>

record 'i mp_obj_slice_t =
  slice_start :: "'i mp_obj_t"
  slice_stop :: "'i mp_obj_t"
  slice_step :: "'i mp_obj_t"

definition mp_obj_slice_get ::
  "'i mp_obj_slice_t \<Rightarrow> 'i mp_obj_t \<times> 'i mp_obj_t \<times> 'i mp_obj_t" where
  "mp_obj_slice_get sl = (slice_start sl, slice_stop sl, slice_step sl)"

text \<open>
  Modelled from the spec: the exception types and \<^verbatim>\<open>mp_obj_new_exception_msg\<close> are
  missing. The specification has two kinds of failure, \<open>UnsupportedOperation\<close>, which
  the code raises as \<^verbatim>\<open>NotImplementedError\<close>, and \<open>NotFound\<close>, which it raises as
  \<^verbatim>\<open>ValueError\<close>, each with a message; the other two types are what
  \<^verbatim>\<open>mp_get_index\<close> may raise.
\<close>

datatype mp_exc_type =
    mp_type_NotImplementedError
  | mp_type_ValueError
  | mp_type_TypeError
  | mp_type_IndexError

datatype mp_exception = mp_obj_new_exception_msg mp_exc_type string

subsection \<open>\<^verbatim>\<open>mp_seq_get_fast_slice_indexes\<close>\<close>

text \<open>
  \<open>len\<close> is a \<^verbatim>\<open>machine_uint_t\<close>; \<open>start\<close> and \<open>stop\<close> are \<^verbatim>\<open>machine_int_t\<close>.
  \<^verbatim>\<open>stop = len\<close> and \<^verbatim>\<open>start = len + start\<close> convert the unsigned value to the
  signed type; \<^verbatim>\<open>start > len\<close> compares a signed with an unsigned value, which C does
  unsigned; \<^verbatim>\<open>start > stop\<close> and the tests against \<open>0\<close> are signed.
\<close>

definition mp_seq_get_fast_slice_indexes ::
  "'w::len word \<Rightarrow> 'w word mp_obj_slice_t \<Rightarrow> mp_exception + ('w word \<times> 'w word)" where
  "mp_seq_get_fast_slice_indexes len sl =
    (case mp_obj_slice_get sl of (ostart, ostop, ostep) \<Rightarrow>
      if ostep \<noteq> mp_const_none \<and> ostep \<noteq> MP_OBJ_NEW_SMALL_INT 1 then
        Inl (mp_obj_new_exception_msg mp_type_NotImplementedError
              ''Only slices with step=1 (aka None) are supported'')
      else
        let start0 = (case ostart of mp_const_none \<Rightarrow> 0
                       | MP_OBJ_NEW_SMALL_INT v \<Rightarrow> v | MP_OBJ_OTHER g \<Rightarrow> g);
            stop0 = (case ostop of mp_const_none \<Rightarrow> len
                      | MP_OBJ_NEW_SMALL_INT v \<Rightarrow> v | MP_OBJ_OTHER g \<Rightarrow> g);
            start1 =
              (if start0 <s 0 then
                 (let s = len + start0 in if s <s 0 then 0 else s)
               else if len < start0 then len
               else start0);
            stop1 =
              (if stop0 <s 0 then
                 (let s = len + stop0 in if s <s 0 then start1 else s)
               else if len < stop0 then len
               else stop0);
            stop2 = (if stop1 <s start1 then start1 else stop1)
        in Inr (start1, stop2))"


subsection \<open>Comparison operators\<close>

text \<open>
  Modelled from the spec: the operator constants of \<^verbatim>\<open>runtime0.h\<close> are missing. In
  the specification the operator is one of \<open>EQUAL\<close>, \<open>LESS\<close>, \<open>LESS_EQUAL\<close>, \<open>MORE\<close>,
  \<open>MORE_EQUAL\<close>, and \<open>NOT_EQUAL\<close> is excluded from what callers may pass;
  \<open>MP_BINARY_OP_NOT_EQUAL\<close> is here because the code accepts it all the same (the
  comment above both functions asks the callers not to pass it).
\<close>

datatype mp_binary_op_t =
    MP_BINARY_OP_LESS
  | MP_BINARY_OP_MORE
  | MP_BINARY_OP_EQUAL
  | MP_BINARY_OP_LESS_EQUAL
  | MP_BINARY_OP_MORE_EQUAL
  | MP_BINARY_OP_NOT_EQUAL

text \<open>
  The block under \<^verbatim>\<open>// Let's deal only with > & >=\<close>, which both comparison
  functions share word for word: for \<open><\<close> and \<open><=\<close> the two sequences (array and
  count) are swapped and the operator is mirrored.
\<close>

definition SWAP_less ::
  "mp_binary_op_t \<Rightarrow> 'd \<Rightarrow> 'l \<Rightarrow> 'd \<Rightarrow> 'l \<Rightarrow> mp_binary_op_t \<times> 'd \<times> 'l \<times> 'd \<times> 'l" where
  "SWAP_less op data1 len1 data2 len2 =
    (if op = MP_BINARY_OP_LESS \<or> op = MP_BINARY_OP_LESS_EQUAL then
       (if op = MP_BINARY_OP_LESS then MP_BINARY_OP_MORE else MP_BINARY_OP_MORE_EQUAL,
        data2, len2, data1, len1)
     else (op, data1, len1, data2, len2))"

subsection \<open>\<^verbatim>\<open>mp_seq_cmp_bytes\<close>\<close>

type_synonym byte = "8 word"

text \<open>
  The C library's \<^verbatim>\<open>memcmp\<close>: the first \<open>n\<close> bytes of both arrays are compared as
  \<^verbatim>\<open>unsigned char\<close>, and the sign of the result is the sign of the difference of
  the first pair of bytes that differ (C fixes the sign only; the difference itself
  is one admissible value).
\<close>

definition memcmp :: "byte list \<Rightarrow> byte list \<Rightarrow> nat \<Rightarrow> int" where
  "memcmp s1 s2 n =
    (case find (\<lambda>i. s1 ! i \<noteq> s2 ! i) [0..<n] of
       None \<Rightarrow> 0
     | Some i \<Rightarrow> uint (s1 ! i) - uint (s2 ! i))"

definition mp_seq_cmp_bytes ::
  "mp_binary_op_t \<Rightarrow> byte list \<Rightarrow> 'w::len word \<Rightarrow> byte list \<Rightarrow> 'w word \<Rightarrow> bool" where
  "mp_seq_cmp_bytes op0 data1_0 len1_0 data2_0 len2_0 =
    (if op0 = MP_BINARY_OP_EQUAL \<and> len1_0 \<noteq> len2_0 then False
     else
       case SWAP_less op0 data1_0 len1_0 data2_0 len2_0 of (op, data1, len1, data2, len2) \<Rightarrow>
         let min_len = (if len1 < len2 then len1 else len2);
             res = memcmp data1 data2 (unat min_len)
         in if op = MP_BINARY_OP_EQUAL then res = 0
            else if res < 0 then False
            else if res > 0 then True
            else if len1 \<noteq> len2 then (if len1 < len2 then False else True)
            else if op = MP_BINARY_OP_MORE then False
            else True)"

subsection \<open>\<^verbatim>\<open>mp_seq_cmp_objs\<close>\<close>

text \<open>
  The elements are objects of any type \<open>'a\<close>. The object model is outside this
  file and enters as two parameters: \<open>mp_obj_equal\<close>, and \<open>mp_binary_op\<close>, which
  stands for the test \<^verbatim>\<open>mp_binary_op(op, x, y) == mp_const_true\<close>.

  The loop \<^verbatim>\<open>for (int i = 0; i < len; i++)\<close> runs on \<^verbatim>\<open>int\<close>. The counter stays
  below \<open>len\<close>, so its increment cannot overflow and it is an integer here; the
  loop yields \<open>Some\<close> of the value it returns from inside, and \<open>None\<close> when it
  runs to its end. The bound \<^verbatim>\<open>int len = len1 < len2 ? len1 : len2\<close> is the
  conversion of a \<^verbatim>\<open>uint\<close> to \<^verbatim>\<open>int\<close>, which is \<open>sint\<close>.
\<close>

function cmp_objs_loop ::
  "('a \<Rightarrow> 'a \<Rightarrow> bool) \<Rightarrow> (mp_binary_op_t \<Rightarrow> 'a \<Rightarrow> 'a \<Rightarrow> bool) \<Rightarrow> mp_binary_op_t \<Rightarrow>
   'a list \<Rightarrow> 'a list \<Rightarrow> int \<Rightarrow> int \<Rightarrow> bool option" where
  "cmp_objs_loop mp_obj_equal mp_binary_op op items1 items2 len i =
    (if i < len then
       if mp_obj_equal (items1 ! nat i) (items2 ! nat i) then
         cmp_objs_loop mp_obj_equal mp_binary_op op items1 items2 len (i + 1)
       else if op = MP_BINARY_OP_EQUAL then Some False
       else Some (mp_binary_op op (items1 ! nat i) (items2 ! nat i))
     else None)"
  by pat_completeness auto
termination
  by (relation "measure (\<lambda>(_, _, _, _, _, len, i). nat (len - i))") auto

definition mp_seq_cmp_objs ::
  "('a \<Rightarrow> 'a \<Rightarrow> bool) \<Rightarrow> (mp_binary_op_t \<Rightarrow> 'a \<Rightarrow> 'a \<Rightarrow> bool) \<Rightarrow> mp_binary_op_t \<Rightarrow>
   'a list \<Rightarrow> 'w::len word \<Rightarrow> 'a list \<Rightarrow> 'w word \<Rightarrow> bool" where
  "mp_seq_cmp_objs mp_obj_equal mp_binary_op op0 items1_0 len1_0 items2_0 len2_0 =
    (if op0 = MP_BINARY_OP_EQUAL \<and> len1_0 \<noteq> len2_0 then False
     else
       case SWAP_less op0 items1_0 len1_0 items2_0 len2_0 of (op, items1, len1, items2, len2) \<Rightarrow>
         let len = sint (if len1 < len2 then len1 else len2)
         in case cmp_objs_loop mp_obj_equal mp_binary_op op items1 items2 len 0 of
              Some r \<Rightarrow> r
            | None \<Rightarrow>
                if len1 \<noteq> len2 then (if len1 < len2 then False else True)
                else if op = MP_BINARY_OP_MORE then False
                else True)"

subsection \<open>\<^verbatim>\<open>mp_seq_index_obj\<close> and \<^verbatim>\<open>mp_seq_count_obj\<close>\<close>

text \<open>
  \<open>args\<close> holds the arguments of the method call: the sequence object itself, the
  value, and the optional bounds; \<open>n_args\<close> counts them. \<^verbatim>\<open>mp_obj_get_type\<close> and
  \<^verbatim>\<open>mp_get_index\<close> belong to the object model and are parameters;
  \<^verbatim>\<open>mp_get_index\<close> may raise. The loop counters are unsigned and stay below a
  \<^verbatim>\<open>uint\<close>, so they are natural numbers here, and the small integer object that
  each function returns is given by the number it is made from.
\<close>

function index_loop ::
  "('a \<Rightarrow> 'a \<Rightarrow> bool) \<Rightarrow> 'a list \<Rightarrow> 'a \<Rightarrow> nat \<Rightarrow> nat \<Rightarrow> nat option" where
  "index_loop mp_obj_equal items val stop i =
    (if i < stop then
       if mp_obj_equal (items ! i) val then Some i
       else index_loop mp_obj_equal items val stop (i + 1)
     else None)"
  by pat_completeness auto
termination
  by (relation "measure (\<lambda>(_, _, _, stop, i). stop - i)") auto

definition mp_seq_index_obj ::
  "('a \<Rightarrow> 'a \<Rightarrow> bool) \<Rightarrow> ('a \<Rightarrow> 't) \<Rightarrow>
   ('t \<Rightarrow> 'w::len word \<Rightarrow> 'a \<Rightarrow> bool \<Rightarrow> mp_exception + 'w word) \<Rightarrow>
   'a list \<Rightarrow> 'w word \<Rightarrow> nat \<Rightarrow> 'a list \<Rightarrow> mp_exception + nat" where
  "mp_seq_index_obj mp_obj_equal mp_obj_get_type mp_get_index items len n_args args =
    (let type = mp_obj_get_type (args ! 0);
         val = args ! 1;
         bounds =
           (if n_args \<ge> 3 then
              case mp_get_index type len (args ! 2) True of
                Inl e \<Rightarrow> Inl e
              | Inr start \<Rightarrow>
                  if n_args \<ge> 4 then
                    case mp_get_index type len (args ! 3) True of
                      Inl e \<Rightarrow> Inl e
                    | Inr stop \<Rightarrow> Inr (start, stop)
                  else Inr (start, len)
            else Inr (0, len))
     in case bounds of
          Inl e \<Rightarrow> Inl e
        | Inr (start, stop) \<Rightarrow>
            (case index_loop mp_obj_equal items val (unat stop) (unat start) of
               Some i \<Rightarrow> Inr i
             | None \<Rightarrow>
                 Inl (mp_obj_new_exception_msg mp_type_ValueError ''object not in sequence'')))"

function count_loop ::
  "('a \<Rightarrow> 'a \<Rightarrow> bool) \<Rightarrow> 'a list \<Rightarrow> 'a \<Rightarrow> nat \<Rightarrow> nat \<Rightarrow> nat \<Rightarrow> nat" where
  "count_loop mp_obj_equal items val len i count =
    (if i < len then
       count_loop mp_obj_equal items val len (i + 1)
         (if mp_obj_equal (items ! i) val then count + 1 else count)
     else count)"
  by pat_completeness auto
termination
  by (relation "measure (\<lambda>(_, _, _, len, i, _). len - i)") auto

definition mp_seq_count_obj ::
  "('a \<Rightarrow> 'a \<Rightarrow> bool) \<Rightarrow> 'a list \<Rightarrow> 'w::len word \<Rightarrow> 'a \<Rightarrow> nat" where
  "mp_seq_count_obj mp_obj_equal items len val =
    count_loop mp_obj_equal items val (unat len) 0 0"


subsection \<open>\<^verbatim>\<open>mp_seq_multiply\<close>\<close>





subsection \<open>The specification's wording, for comparison\<close>



text \<open>
  Equality and order of bytes as the two capabilities of the object model, for the
  comparison of the byte comparator with the generic one.
\<close>

definition byte_equal :: "byte \<Rightarrow> byte \<Rightarrow> bool" where
  "byte_equal a b = (a = b)"

fun byte_binary_op :: "mp_binary_op_t \<Rightarrow> byte \<Rightarrow> byte \<Rightarrow> bool" where
  "byte_binary_op MP_BINARY_OP_LESS a b = (a < b)"
| "byte_binary_op MP_BINARY_OP_MORE a b = (a > b)"
| "byte_binary_op MP_BINARY_OP_EQUAL a b = (a = b)"
| "byte_binary_op MP_BINARY_OP_LESS_EQUAL a b = (a \<le> b)"
| "byte_binary_op MP_BINARY_OP_MORE_EQUAL a b = (a \<ge> b)"
| "byte_binary_op MP_BINARY_OP_NOT_EQUAL a b = (a \<noteq> b)"


section \<open>Words as numbers\<close>

lemma two_power_len:
  "(2::'a::comm_semiring_1) ^ LENGTH('w::len) = 2 * 2 ^ (LENGTH('w) - 1)"
  by (metis len_gt_0 power_eq_if not_gr_zero)

lemma sint_uint_cases:
  fixes w :: "'w::len word"
  shows "sint w =
    (if uint w < 2 ^ (LENGTH('w) - 1) then uint w else uint w - 2 * 2 ^ (LENGTH('w) - 1))"
proof -
  let ?h = "(2::int) ^ (LENGTH('w) - 1)"
  have p: "(2::int) ^ LENGTH('w) = 2 * ?h"
    by (rule two_power_len)
  have s: "sint w = (uint w + ?h) mod (2 * ?h) - ?h"
    using int_word_sint [of "uint w", where 'a='w] by (simp add: p)
  have b: "0 \<le> uint w" "uint w < 2 * ?h"
    using uint_lt2p [of w] by (simp_all add: p)
  show ?thesis
  proof (cases "uint w < ?h")
    case True
    then have "(uint w + ?h) mod (2 * ?h) = uint w + ?h"
      using b by simp
    with True s show ?thesis by simp
  next
    case False
    then have "(uint w + ?h) mod (2 * ?h) = uint w + ?h - 2 * ?h"
      using b by (simp add: mod_pos_geq)
    with False s show ?thesis by (simp add: p)
  qed
qed

lemma unat_plus_cases:
  fixes a b :: "'w::len word"
  shows "unat (a + b) =
    (if unat a + unat b < 2 * 2 ^ (LENGTH('w) - 1) then unat a + unat b
     else unat a + unat b - 2 * 2 ^ (LENGTH('w) - 1))"
  using two_power_len [where 'w='w and 'a=nat] by (simp add: unat_plus_if')

lemma unat_bound:
  fixes a :: "'w::len word"
  shows "unat a < 2 * 2 ^ (LENGTH('w) - 1)"
  using unsigned_less [of a, where 'a=nat] two_power_len [where 'w='w and 'a=nat] by simp

lemma uint_bound:
  fixes a :: "'w::len word"
  shows "uint a < 2 * 2 ^ (LENGTH('w) - 1)"
  using uint_lt2p [of a] two_power_len [where 'w='w and 'a=int] by simp

lemma sneg_iff: "(a <s 0) = (2 ^ (LENGTH('w) - 1) \<le> unat (a :: 'w::len word))"
proof -
  have lt: "(uint a < 2 ^ (LENGTH('w) - 1)) = (unat a < 2 ^ (LENGTH('w) - 1))"
    unfolding uint_nat by (rule of_nat_less_numeral_power_cancel_iff)
  show ?thesis
    unfolding word_sless_alt sint_uint_cases [of a] using lt uint_bound [of a]
    by (simp add: not_less)
qed

lemma sint_nonneg:
  fixes a :: "'w::len word"
  assumes "\<not> a <s 0"
  shows "sint a = uint a"
  using assms uint_bound [of a] unfolding word_sless_alt sint_uint_cases [of a]
  by (simp split: if_splits)

lemma sless_nonneg:
  fixes a b :: "'w::len word"
  assumes "\<not> a <s 0" "\<not> b <s 0"
  shows "(a <s b) = (a < b)"
  using assms by (simp add: word_sless_alt [of a b] sint_nonneg word_less_def)

section \<open>The slice resolver\<close>

text \<open>
  Both clamps end in the range of the sequence, and on a value that is not negative
  as a \<^verbatim>\<open>machine_int_t\<close>, whatever the length and the bound are.
\<close>

lemma start_clamp:
  fixes len start0 :: "'w::len word"
  defines "start1 \<equiv>
    (if start0 <s 0 then (let s = len + start0 in if s <s 0 then 0 else s)
     else if len < start0 then len
     else start0)"
  shows "start1 \<le> len \<and> \<not> start1 <s 0"
proof -
  define H :: nat where "H = 2 ^ (LENGTH('w) - 1)"
  have b: "unat len < 2 * H" "unat start0 < 2 * H"
    using unat_bound [of len] unat_bound [of start0] by (simp_all add: H_def)
  have n: "\<And>a :: 'w word. (a <s 0) = (H \<le> unat a)"
    by (simp add: sneg_iff H_def)
  have p: "unat (len + start0) =
      (if unat len + unat start0 < 2 * H then unat len + unat start0
       else unat len + unat start0 - 2 * H)"
    by (simp add: unat_plus_cases H_def)
  show ?thesis
    using b unfolding start1_def Let_def n word_less_nat_alt word_le_nat_alt
    by (simp add: p split: if_splits) arith
qed

lemma stop_clamp:
  fixes len stop0 start1 :: "'w::len word"
  assumes "start1 \<le> len" "\<not> start1 <s 0"
  defines "stop1 \<equiv>
    (if stop0 <s 0 then (let s = len + stop0 in if s <s 0 then start1 else s)
     else if len < stop0 then len
     else stop0)"
  shows "stop1 \<le> len \<and> \<not> stop1 <s 0"
proof -
  define H :: nat where "H = 2 ^ (LENGTH('w) - 1)"
  have b: "unat len < 2 * H" "unat stop0 < 2 * H"
    using unat_bound [of len] unat_bound [of stop0] by (simp_all add: H_def)
  have n: "\<And>a :: 'w word. (a <s 0) = (H \<le> unat a)"
    by (simp add: sneg_iff H_def)
  have p: "unat (len + stop0) =
      (if unat len + unat stop0 < 2 * H then unat len + unat stop0
       else unat len + unat stop0 - 2 * H)"
    by (simp add: unat_plus_cases H_def)
  show ?thesis
    using b assms(1,2) unfolding stop1_def Let_def n word_less_nat_alt word_le_nat_alt
    by (simp add: p split: if_splits) arith
qed

text \<open>
  The function unfolded into its five steps, for a step that it accepts.
\<close>

lemma fast_slice_indexes_steps:
  fixes len :: "'w::len word"
  assumes "slice_step sl = mp_const_none \<or> slice_step sl = MP_OBJ_NEW_SMALL_INT 1"
  defines "start0 \<equiv> (case slice_start sl of mp_const_none \<Rightarrow> 0
                       | MP_OBJ_NEW_SMALL_INT v \<Rightarrow> v | MP_OBJ_OTHER g \<Rightarrow> g)"
  defines "stop0 \<equiv> (case slice_stop sl of mp_const_none \<Rightarrow> len
                       | MP_OBJ_NEW_SMALL_INT v \<Rightarrow> v | MP_OBJ_OTHER g \<Rightarrow> g)"
  defines "start1 \<equiv>
    (if start0 <s 0 then (let s = len + start0 in if s <s 0 then 0 else s)
     else if len < start0 then len
     else start0)"
  defines "stop1 \<equiv>
    (if stop0 <s 0 then (let s = len + stop0 in if s <s 0 then start1 else s)
     else if len < stop0 then len
     else stop0)"
  shows "mp_seq_get_fast_slice_indexes len sl =
           Inr (start1, if stop1 <s start1 then start1 else stop1)"
  using assms(1)
  unfolding mp_seq_get_fast_slice_indexes_def mp_obj_slice_get_def
    stop1_def start1_def stop0_def start0_def
  by (simp add: Let_def)

text \<open>
  C1 (slice resolution totality). For every length, every start and every stop
  (\<^verbatim>\<open>None\<close>, a small integer of any value, or any other object), and a step that is
  \<^verbatim>\<open>None\<close> or the small integer 1, \<open>mp_seq_get_fast_slice_indexes\<close> does not raise:
  it returns a pair \<open>(begin, end)\<close> with \<open>0 \<le> begin \<le> end \<le> len\<close> in the unsigned
  order of \<^verbatim>\<open>machine_uint_t\<close>.
\<close>

theorem slice_resolution_totality:
  fixes len :: "'w::len word"
  assumes "slice_step sl = mp_const_none \<or> slice_step sl = MP_OBJ_NEW_SMALL_INT 1"
  shows "\<exists>b e. mp_seq_get_fast_slice_indexes len sl = Inr (b, e) \<and>
           0 \<le> b \<and> b \<le> e \<and> e \<le> len"
proof -
  define start0 where "start0 = (case slice_start sl of mp_const_none \<Rightarrow> 0
                       | MP_OBJ_NEW_SMALL_INT v \<Rightarrow> v | MP_OBJ_OTHER g \<Rightarrow> g)"
  define stop0 where "stop0 = (case slice_stop sl of mp_const_none \<Rightarrow> len
                       | MP_OBJ_NEW_SMALL_INT v \<Rightarrow> v | MP_OBJ_OTHER g \<Rightarrow> g)"
  define start1 where "start1 =
    (if start0 <s 0 then (let s = len + start0 in if s <s 0 then 0 else s)
     else if len < start0 then len
     else start0)"
  define stop1 where "stop1 =
    (if stop0 <s 0 then (let s = len + stop0 in if s <s 0 then start1 else s)
     else if len < stop0 then len
     else stop0)"
  define stop2 where "stop2 = (if stop1 <s start1 then start1 else stop1)"
  have r: "mp_seq_get_fast_slice_indexes len sl = Inr (start1, stop2)"
    unfolding stop2_def stop1_def start1_def stop0_def start0_def
    by (rule fast_slice_indexes_steps [OF assms])
  have s1: "start1 \<le> len \<and> \<not> start1 <s 0"
    unfolding start1_def by (rule start_clamp)
  have s2: "stop1 \<le> len \<and> \<not> stop1 <s 0"
    unfolding stop1_def using s1 by (intro stop_clamp) simp_all
  have "start1 \<le> stop2 \<and> stop2 \<le> len"
    using s1 s2 by (auto simp add: stop2_def sless_nonneg)
  with r show ?thesis by simp
qed

theorem slice_resolution_totality_witness:
  "\<exists>b e. mp_seq_get_fast_slice_indexes (10 :: 32 word)
            \<lparr>slice_start = MP_OBJ_NEW_SMALL_INT (- 3), slice_stop = mp_const_none,
             slice_step = MP_OBJ_NEW_SMALL_INT 1\<rparr> = Inr (b, e) \<and>
          0 \<le> b \<and> b \<le> e \<and> e \<le> 10"
  using slice_resolution_totality
    [of "\<lparr>slice_start = MP_OBJ_NEW_SMALL_INT (- 3), slice_stop = mp_const_none,
          slice_step = MP_OBJ_NEW_SMALL_INT 1\<rparr>" "10 :: 32 word"]
  by simp

text \<open>
  C5 (slice step rejection). For every length and every slice whose step is neither
  \<^verbatim>\<open>None\<close> nor the small integer 1, \<open>mp_seq_get_fast_slice_indexes\<close> raises
  \<^verbatim>\<open>NotImplementedError\<close> and yields no range.
\<close>

theorem slice_step_rejection:
  fixes len :: "'w::len word"
  assumes "slice_step sl \<noteq> mp_const_none" and "slice_step sl \<noteq> MP_OBJ_NEW_SMALL_INT 1"
  shows "mp_seq_get_fast_slice_indexes len sl =
           Inl (mp_obj_new_exception_msg mp_type_NotImplementedError
                 ''Only slices with step=1 (aka None) are supported'')"
  using assms by (simp add: mp_seq_get_fast_slice_indexes_def mp_obj_slice_get_def)

theorem slice_step_rejection_witness:
  "mp_seq_get_fast_slice_indexes (10 :: 32 word)
     \<lparr>slice_start = mp_const_none, slice_stop = mp_const_none,
      slice_step = MP_OBJ_NEW_SMALL_INT 2\<rparr> =
   Inl (mp_obj_new_exception_msg mp_type_NotImplementedError
         ''Only slices with step=1 (aka None) are supported'')"
  using slice_step_rejection
    [of "\<lparr>slice_start = mp_const_none, slice_stop = mp_const_none,
          slice_step = MP_OBJ_NEW_SMALL_INT 2\<rparr>" "10 :: 32 word"]
  by simp








section \<open>The comparators\<close>

subsection \<open>The two scans\<close>

text \<open>
  \<open>memcmp\<close> is \<open>0\<close> exactly when the compared bytes agree, and is otherwise the
  difference of the first pair that differs.
\<close>

lemma memcmp_all_equal:
  assumes "\<forall>i<n. s1 ! i = s2 ! i"
  shows "memcmp s1 s2 n = 0"
proof -
  have "find (\<lambda>i. s1 ! i \<noteq> s2 ! i) [0..<n] = None"
    using assms by (simp add: find_None_iff)
  then show ?thesis by (simp add: memcmp_def)
qed

lemma memcmp_first_diff:
  assumes "k < n" and "s1 ! k \<noteq> s2 ! k" and "\<forall>j<k. s1 ! j = s2 ! j"
  shows "memcmp s1 s2 n = uint (s1 ! k) - uint (s2 ! k)"
proof -
  have "find (\<lambda>i. s1 ! i \<noteq> s2 ! i) [0..<n] = Some k"
    using assms by (auto simp add: find_Some_iff intro!: exI [of _ k])
  then show ?thesis by (simp add: memcmp_def)
qed

text \<open>
  The loop of \<open>mp_seq_cmp_objs\<close> runs to its end when all pairs below \<open>len\<close> are
  equal, and otherwise returns at the first pair that is not.
\<close>

declare cmp_objs_loop.simps [simp del]

lemma cmp_objs_loop_all_equal:
  assumes "\<forall>j. i \<le> j \<and> j < len \<longrightarrow> eq (x ! nat j) (y ! nat j)"
  shows "cmp_objs_loop eq bop op x y len i = None"
  using assms
proof (induction eq bop op x y len i rule: cmp_objs_loop.induct)
  case (1 eq bop op x y len i)
  show ?case
  proof (cases "i < len")
    case True
    with 1 show ?thesis
      by (subst cmp_objs_loop.simps) simp
  next
    case False
    then show ?thesis
      by (subst cmp_objs_loop.simps) simp
  qed
qed

lemma cmp_objs_loop_first_diff:
  assumes "i \<le> k" and "k < len" and "\<not> eq (x ! nat k) (y ! nat k)"
    and "\<forall>j. i \<le> j \<and> j < k \<longrightarrow> eq (x ! nat j) (y ! nat j)"
  shows "cmp_objs_loop eq bop op x y len i =
    Some (if op = MP_BINARY_OP_EQUAL then False else bop op (x ! nat k) (y ! nat k))"
  using assms
proof (induction eq bop op x y len i rule: cmp_objs_loop.induct)
  case (1 eq bop op x y len i)
  show ?case
  proof (cases "i = k")
    case True
    with 1(3,4) show ?thesis
      by (subst cmp_objs_loop.simps) simp
  next
    case False
    with 1(2) have lt: "i < k" by simp
    with 1(3) have il: "i < len" by simp
    have e: "eq (x ! nat i) (y ! nat i)"
      using 1(5) lt by simp
    have "cmp_objs_loop eq bop op x y len (i + 1) =
      Some (if op = MP_BINARY_OP_EQUAL then False else bop op (x ! nat k) (y ! nat k))"
      using il e lt 1(3,4,5) by (intro 1(1)) simp_all
    with il e show ?thesis
      by (subst cmp_objs_loop.simps) simp
  qed
qed

lemma cmp_objs_loop_all_equal_nat:
  assumes "\<forall>j<n. eq (x ! j) (y ! j)"
  shows "cmp_objs_loop eq bop op x y (int n) 0 = None"
  using assms by (intro cmp_objs_loop_all_equal) (simp add: nat_less_iff)

lemma cmp_objs_loop_first_diff_nat:
  assumes "k < n" and "\<not> eq (x ! k) (y ! k)" and "\<forall>j<k. eq (x ! j) (y ! j)"
  shows "cmp_objs_loop eq bop op x y (int n) 0 =
    Some (if op = MP_BINARY_OP_EQUAL then False else bop op (x ! k) (y ! k))"
  using assms cmp_objs_loop_first_diff [of 0 "int k" "int n" eq x y bop op]
  by (simp add: nat_less_iff)

lemma first_difference:
  fixes n :: nat
  assumes "\<exists>k<n. P k"
  obtains k where "k < n" and "P k" and "\<forall>j<k. \<not> P j"
proof -
  from assms have "\<exists>k. k < n \<and> P k" by blast
  then have "\<exists>k. (k < n \<and> P k) \<and> (\<forall>j<k. \<not> (j < n \<and> P j))"
    by (subst (asm) exists_least_iff)
  then obtain k where k: "k < n" "P k" "\<forall>j<k. \<not> (j < n \<and> P j)" by blast
  then have "\<forall>j<k. \<not> P j" by auto
  with k(1,2) show thesis by (rule that)
qed

text \<open>
  An unsigned count that is not negative as an \<^verbatim>\<open>int\<close> keeps its value in the
  conversion.
\<close>

lemma sint_le_uint: "sint (w :: 'w::len word) \<le> uint w"
  unfolding sint_uint_cases [of w] by simp

lemma nat_below_sint:
  fixes w :: "'w::len word"
  assumes "0 \<le> j" and "j < sint w"
  shows "nat j < unat w"
proof -
  have "j < uint w" using assms(2) sint_le_uint [of w] by simp
  then have "int (nat j) < int (unat w)" using assms(1) by simp
  then show ?thesis by (simp only: of_nat_less_iff)
qed

lemma sint_fit:
  fixes w :: "'w::len word"
  assumes "0 \<le> sint w"
  shows "sint w = int (unat w)"
proof -
  have "\<not> w <s 0" using assms by (simp add: word_sless_alt)
  then show ?thesis by (simp add: sint_nonneg)
qed

subsection \<open>Claims about both comparators\<close>

text \<open>
  C3 (comparator swap consistency). For \<open>mp_seq_cmp_bytes\<close> and for
  \<open>mp_seq_cmp_objs\<close>, and for all sequences \<open>A\<close> and \<open>B\<close>: comparing \<open>A > B\<close> gives
  what comparing \<open>B < A\<close> gives, and comparing \<open>A >= B\<close> gives what comparing
  \<open>B <= A\<close> gives.
\<close>

theorem comparator_swap_consistency:
  "mp_seq_cmp_bytes MP_BINARY_OP_MORE a la b lb = mp_seq_cmp_bytes MP_BINARY_OP_LESS b lb a la \<and>
   mp_seq_cmp_bytes MP_BINARY_OP_MORE_EQUAL a la b lb =
     mp_seq_cmp_bytes MP_BINARY_OP_LESS_EQUAL b lb a la \<and>
   mp_seq_cmp_objs eq bop MP_BINARY_OP_MORE x lx y ly =
     mp_seq_cmp_objs eq bop MP_BINARY_OP_LESS y ly x lx \<and>
   mp_seq_cmp_objs eq bop MP_BINARY_OP_MORE_EQUAL x lx y ly =
     mp_seq_cmp_objs eq bop MP_BINARY_OP_LESS_EQUAL y ly x lx"
  by (simp add: mp_seq_cmp_bytes_def mp_seq_cmp_objs_def SWAP_less_def)

text \<open>
  C7 (equality length shortcut). For both comparators, the comparison for equality of
  two sequences with different element counts is false, whatever the arrays hold (and,
  for the generic comparator, whatever the two capabilities answer).
\<close>

theorem equality_length_shortcut:
  assumes "la \<noteq> lb" and "lx \<noteq> ly"
  shows "\<not> mp_seq_cmp_bytes MP_BINARY_OP_EQUAL a la b lb \<and>
         \<not> mp_seq_cmp_objs eq bop MP_BINARY_OP_EQUAL x lx y ly"
  using assms by (simp add: mp_seq_cmp_bytes_def mp_seq_cmp_objs_def)

theorem equality_length_shortcut_witness:
  "\<not> mp_seq_cmp_bytes MP_BINARY_OP_EQUAL [97, 98] (2 :: 32 word) [97, 98, 99] 3 \<and>
   \<not> mp_seq_cmp_objs byte_equal byte_binary_op MP_BINARY_OP_EQUAL
       [97, 98] (2 :: 32 word) [97, 98, 99] 3"
  using equality_length_shortcut
    [of "2 :: 32 word" 3 "2 :: 32 word" 3 "[97, 98]" "[97, 98, 99]"
        byte_equal byte_binary_op "[97, 98]" "[97, 98, 99]"]
  by simp

text \<open>
  C4 (prefix tie-break). For both comparators: when \<open>A\<close> has fewer elements than \<open>B\<close>
  and every element of \<open>A\<close> equals the element of \<open>B\<close> at the same index (for the
  generic comparator: \<open>mp_obj_equal\<close> holds for the pair, in the order in which either
  call passes it), then \<open>A > B\<close> is false and \<open>B > A\<close> is true.
\<close>

theorem prefix_tie_break:
  fixes la lb :: "'w::len word" and lx ly :: "'v::len word"
  assumes "la < lb" and "\<forall>i<unat la. a ! i = b ! i"
    and "lx < ly" and "\<forall>i<unat lx. eq (x ! i) (y ! i) \<and> eq (y ! i) (x ! i)"
  shows "\<not> mp_seq_cmp_bytes MP_BINARY_OP_MORE a la b lb \<and>
         mp_seq_cmp_bytes MP_BINARY_OP_MORE b lb a la \<and>
         \<not> mp_seq_cmp_objs eq bop MP_BINARY_OP_MORE x lx y ly \<and>
         mp_seq_cmp_objs eq bop MP_BINARY_OP_MORE y ly x lx"
proof -
  have m1: "memcmp a b (unat la) = 0"
    using assms(2) by (intro memcmp_all_equal) simp
  have m2: "memcmp b a (unat la) = 0"
    using assms(2) by (intro memcmp_all_equal) simp
  have l1: "cmp_objs_loop eq bop MP_BINARY_OP_MORE x y (sint lx) 0 = None"
    using assms(4) by (intro cmp_objs_loop_all_equal) (simp add: nat_below_sint)
  have l2: "cmp_objs_loop eq bop MP_BINARY_OP_MORE y x (sint lx) 0 = None"
    using assms(4) by (intro cmp_objs_loop_all_equal) (simp add: nat_below_sint)
  have nb: "\<not> lb < la" "la \<noteq> lb" using assms(1) by auto
  have ny: "\<not> ly < lx" "lx \<noteq> ly" using assms(3) by auto
  have "\<not> mp_seq_cmp_bytes MP_BINARY_OP_MORE a la b lb"
    using assms(1) nb m1 by (simp add: mp_seq_cmp_bytes_def SWAP_less_def)
  moreover have "mp_seq_cmp_bytes MP_BINARY_OP_MORE b lb a la"
    using assms(1) nb m2 by (simp add: mp_seq_cmp_bytes_def SWAP_less_def)
  moreover have "\<not> mp_seq_cmp_objs eq bop MP_BINARY_OP_MORE x lx y ly"
    using assms(3) ny l1 by (simp add: mp_seq_cmp_objs_def SWAP_less_def)
  moreover have "mp_seq_cmp_objs eq bop MP_BINARY_OP_MORE y ly x lx"
    using assms(3) ny l2 by (simp add: mp_seq_cmp_objs_def SWAP_less_def)
  ultimately show ?thesis by simp
qed

theorem prefix_tie_break_witness:
  "\<not> mp_seq_cmp_bytes MP_BINARY_OP_MORE [97, 98] (2 :: 32 word) [97, 98, 99] 3 \<and>
   mp_seq_cmp_bytes MP_BINARY_OP_MORE [97, 98, 99] (3 :: 32 word) [97, 98] 2 \<and>
   \<not> mp_seq_cmp_objs byte_equal byte_binary_op MP_BINARY_OP_MORE
       [97, 98] (2 :: 32 word) [97, 98, 99] 3 \<and>
   mp_seq_cmp_objs byte_equal byte_binary_op MP_BINARY_OP_MORE
     [97, 98, 99] (3 :: 32 word) [97, 98] 2"
proof -
  have lt: "(2 :: 32 word) < 3"
    by simp
  have two: "unat (2 :: 32 word) = Suc (Suc 0)"
    by simp
  have pre: "\<forall>i<unat (2 :: 32 word). [97, 98 :: byte] ! i = [97, 98, 99] ! i"
    unfolding two by (simp add: less_Suc_eq)
  have pre': "\<forall>i<unat (2 :: 32 word).
      byte_equal ([97, 98] ! i) ([97, 98, 99] ! i) \<and> byte_equal ([97, 98, 99] ! i) ([97, 98] ! i)"
    unfolding two by (simp add: less_Suc_eq byte_equal_def)
  show ?thesis
    by (rule prefix_tie_break
        [where eq = byte_equal and x = "[97, 98]" and y = "[97, 98, 99]",
         OF lt pre lt pre'])
qed

subsection \<open>The generic comparator\<close>

text \<open>
  An unsigned count that is at most \<^verbatim>\<open>INT_MAX\<close> is the loop bound itself, and the
  function returns what the loop returns at the first pair that \<open>mp_obj_equal\<close>
  rejects.
\<close>

lemma cmp_objs_decided:
  fixes len1_0 len2_0 :: "'w::len word"
  assumes norm: "SWAP_less op0 items1_0 len1_0 items2_0 len2_0 = (op, items1, len1, items2, len2)"
    and fit: "0 \<le> sint (min len1 len2)"
    and k: "k < unat (min len1 len2)"
    and ne: "\<not> eq (items1 ! k) (items2 ! k)"
    and eqs: "\<forall>j<k. eq (items1 ! j) (items2 ! j)"
  shows "mp_seq_cmp_objs eq bop op0 items1_0 len1_0 items2_0 len2_0 =
    (if op0 = MP_BINARY_OP_EQUAL then False else bop op (items1 ! k) (items2 ! k))"
proof (cases "op0 = MP_BINARY_OP_EQUAL \<and> len1_0 \<noteq> len2_0")
  case True
  then show ?thesis by (simp add: mp_seq_cmp_objs_def)
next
  case False
  have m: "(if len1 < len2 then len1 else len2) = min len1 len2"
    by (auto simp add: min_def)
  have len: "sint (min len1 len2) = int (unat (min len1 len2))"
    using fit by (rule sint_fit)
  have lp: "cmp_objs_loop eq bop op items1 items2 (int (unat (min len1 len2))) 0 =
      Some (if op = MP_BINARY_OP_EQUAL then False else bop op (items1 ! k) (items2 ! k))"
    using k ne eqs by (rule cmp_objs_loop_first_diff_nat)
  have oe: "(op = MP_BINARY_OP_EQUAL) = (op0 = MP_BINARY_OP_EQUAL)"
    using norm by (auto simp add: SWAP_less_def split: if_splits)
  have "mp_seq_cmp_objs eq bop op0 items1_0 len1_0 items2_0 len2_0 =
      (let len = sint (if len1 < len2 then len1 else len2)
       in case cmp_objs_loop eq bop op items1 items2 len 0 of
            Some r \<Rightarrow> r
          | None \<Rightarrow>
              if len1 \<noteq> len2 then (if len1 < len2 then False else True)
              else if op = MP_BINARY_OP_MORE then False
              else True)"
    unfolding mp_seq_cmp_objs_def norm using False by (simp only: if_False prod.case)
  also have "\<dots> = (if op = MP_BINARY_OP_EQUAL then False else bop op (items1 ! k) (items2 ! k))"
    unfolding m len Let_def lp by (simp only: option.case)
  finally show ?thesis
    by (simp only: oe)
qed

lemma cmp_objs_loop_negative:
  assumes "len \<le> 0"
  shows "cmp_objs_loop eq bop op x y len 0 = None"
  using assms by (subst cmp_objs_loop.simps) simp

text \<open>
  C8 (first-difference decision): if \<open>i\<close> is the smallest index below both counts at
  which \<open>mp_obj_equal\<close> fails, then \<open>mp_seq_cmp_objs\<close> returns, for an operator other
  than \<open>==\<close>, what \<open>mp_binary_op\<close> answers for the operator on the pair at \<open>i\<close>, and
  for \<open>==\<close> it returns false.

  The code does not do so where the smaller count is above \<^verbatim>\<open>INT_MAX\<close>. It assigns
  that count, a \<^verbatim>\<open>uint\<close>, to \<^verbatim>\<open>int len\<close>; the \<^verbatim>\<open>int\<close> is negative, the loop
  \<^verbatim>\<open>for (int i = 0; i < len; i++)\<close> is never entered, and the tie-break on the counts
  answers as if the sequences were equal. With 32 bits, take two sequences of \<open>2^31\<close>
  elements, every element \<open>2\<close> in the first and \<open>1\<close> in the second. They differ at
  index \<open>0\<close>, which is below both counts, and \<open>2 > 1\<close> holds for the pair there; yet
  \<open>mp_seq_cmp_objs\<close> answers false for \<open>>\<close> and true for \<open>==\<close>. On the same input
  \<open>mp_seq_cmp_bytes\<close>, which keeps the count in \<^verbatim>\<open>uint min_len\<close>, answers true for
  \<open>>\<close> and false for \<open>==\<close>.
\<close>

theorem generic_first_difference_above_INT_MAX:
  "0 < unat (min (2147483648 :: 32 word) 2147483648) \<and>
   \<not> byte_equal (replicate 2147483648 2 ! 0) (replicate 2147483648 1 ! 0) \<and>
   byte_binary_op MP_BINARY_OP_MORE (replicate 2147483648 2 ! 0) (replicate 2147483648 1 ! 0) \<and>
   \<not> mp_seq_cmp_objs byte_equal byte_binary_op MP_BINARY_OP_MORE
       (replicate 2147483648 2) (2147483648 :: 32 word) (replicate 2147483648 1) 2147483648 \<and>
   mp_seq_cmp_objs byte_equal byte_binary_op MP_BINARY_OP_EQUAL
     (replicate 2147483648 2) (2147483648 :: 32 word) (replicate 2147483648 1) 2147483648 \<and>
   mp_seq_cmp_bytes MP_BINARY_OP_MORE
     (replicate 2147483648 2) (2147483648 :: 32 word) (replicate 2147483648 1) 2147483648 \<and>
   \<not> mp_seq_cmp_bytes MP_BINARY_OP_EQUAL
       (replicate 2147483648 2) (2147483648 :: 32 word) (replicate 2147483648 1) 2147483648"
proof -
  let ?a = "replicate 2147483648 (2 :: byte)" and ?b = "replicate 2147483648 (1 :: byte)"
  have s: "sint (2147483648 :: 32 word) = - 2147483648"
    by simp
  have l: "cmp_objs_loop byte_equal byte_binary_op op ?a ?b (- 2147483648) 0 = None" for op
    by (rule cmp_objs_loop_negative) simp
  have more: "\<not> mp_seq_cmp_objs byte_equal byte_binary_op MP_BINARY_OP_MORE
      ?a (2147483648 :: 32 word) ?b 2147483648"
    by (simp add: mp_seq_cmp_objs_def SWAP_less_def s l)
  have equal: "mp_seq_cmp_objs byte_equal byte_binary_op MP_BINARY_OP_EQUAL
      ?a (2147483648 :: 32 word) ?b 2147483648"
    by (simp add: mp_seq_cmp_objs_def SWAP_less_def s l)
  have n: "unat (2147483648 :: 32 word) = 2147483648"
    by simp
  have "memcmp ?a ?b 2147483648 = uint (?a ! 0) - uint (?b ! 0)"
    by (rule memcmp_first_diff) simp_all
  then have m: "memcmp ?a ?b 2147483648 = 1"
    by simp
  have bytes_more: "mp_seq_cmp_bytes MP_BINARY_OP_MORE ?a (2147483648 :: 32 word) ?b 2147483648"
    by (simp add: mp_seq_cmp_bytes_def SWAP_less_def n m)
  have bytes_equal:
    "\<not> mp_seq_cmp_bytes MP_BINARY_OP_EQUAL ?a (2147483648 :: 32 word) ?b 2147483648"
    by (simp add: mp_seq_cmp_bytes_def SWAP_less_def n m)
  have rel: "byte_binary_op MP_BINARY_OP_MORE (?a ! 0) (?b ! 0)"
    by simp
  have ne: "\<not> byte_equal (?a ! 0) (?b ! 0)"
    by (simp add: byte_equal_def)
  from more equal bytes_more bytes_equal rel ne show ?thesis by simp
qed

text \<open>
  After the swap, and with a bound that is at most \<^verbatim>\<open>INT_MAX\<close>, the rest of
  \<open>mp_seq_cmp_bytes\<close> and the rest of \<open>mp_seq_cmp_objs\<close> on bytes return the same.
\<close>

lemma cmp_bodies_agree:
  fixes len1 len2 :: "'w::len word"
  assumes op: "op = MP_BINARY_OP_MORE \<or> op = MP_BINARY_OP_MORE_EQUAL \<or> op = MP_BINARY_OP_EQUAL"
    and eq_len: "op = MP_BINARY_OP_EQUAL \<longrightarrow> len1 = len2"
    and fit: "0 \<le> sint (if len1 < len2 then len1 else len2)"
  shows
    "(let min_len = (if len1 < len2 then len1 else len2);
          res = memcmp data1 data2 (unat min_len)
      in if op = MP_BINARY_OP_EQUAL then res = 0
         else if res < 0 then False
         else if res > 0 then True
         else if len1 \<noteq> len2 then (if len1 < len2 then False else True)
         else if op = MP_BINARY_OP_MORE then False
         else True) =
     (let len = sint (if len1 < len2 then len1 else len2)
      in case cmp_objs_loop byte_equal byte_binary_op op data1 data2 len 0 of
           Some r \<Rightarrow> r
         | None \<Rightarrow>
             if len1 \<noteq> len2 then (if len1 < len2 then False else True)
             else if op = MP_BINARY_OP_MORE then False
             else True)"
proof -
  define m where "m = (if len1 < len2 then len1 else len2)"
  define n where "n = unat m"
  have len: "sint m = int n"
    using fit unfolding m_def [symmetric] n_def by (rule sint_fit)
  show ?thesis
  proof (cases "\<exists>k<n. data1 ! k \<noteq> data2 ! k")
    case True
    then obtain k where k: "k < n" "data1 ! k \<noteq> data2 ! k" "\<forall>j<k. \<not> data1 ! j \<noteq> data2 ! j"
      by (rule first_difference)
    have mc: "memcmp data1 data2 n = uint (data1 ! k) - uint (data2 ! k)"
      using k by (intro memcmp_first_diff) simp_all
    have lp: "cmp_objs_loop byte_equal byte_binary_op op data1 data2 (int n) 0 =
      Some (if op = MP_BINARY_OP_EQUAL then False
            else byte_binary_op op (data1 ! k) (data2 ! k))"
      using k by (intro cmp_objs_loop_first_diff_nat) (simp_all add: byte_equal_def)
    have ne: "uint (data1 ! k) \<noteq> uint (data2 ! k)"
      using k(2) by (simp add: word_uint_eq_iff)
    show ?thesis
      using op ne unfolding m_def [symmetric] Let_def len n_def [symmetric] mc lp
      by (auto simp add: word_less_def word_le_def)
  next
    case False
    then have all: "\<forall>i<n. data1 ! i = data2 ! i" by simp
    have mc: "memcmp data1 data2 n = 0"
      using all by (rule memcmp_all_equal)
    have lp: "cmp_objs_loop byte_equal byte_binary_op op data1 data2 (int n) 0 = None"
      using all by (intro cmp_objs_loop_all_equal_nat) (simp add: byte_equal_def)
    show ?thesis
      using eq_len unfolding m_def [symmetric] Let_def len n_def [symmetric] mc lp
      by auto
  qed
qed

text \<open>
  So for each of the five operators \<open>==\<close>, \<open><\<close>, \<open><=\<close>, \<open>>\<close>, \<open>>=\<close> and all byte
  sequences whose smaller count is at most \<^verbatim>\<open>INT_MAX\<close>, \<open>mp_seq_cmp_bytes\<close> returns
  what \<open>mp_seq_cmp_objs\<close> returns with equality of bytes for \<open>mp_obj_equal\<close> and the
  order of bytes for \<open>mp_binary_op\<close>.
\<close>

lemma cmp_bytes_objs_agree:
  fixes la lb :: "'w::len word"
  assumes "op \<noteq> MP_BINARY_OP_NOT_EQUAL" and "0 \<le> sint (min la lb)"
  shows "mp_seq_cmp_bytes op a la b lb =
         mp_seq_cmp_objs byte_equal byte_binary_op op a la b lb"
proof (cases "op = MP_BINARY_OP_EQUAL \<and> la \<noteq> lb")
  case True
  then show ?thesis
    by (simp add: mp_seq_cmp_bytes_def mp_seq_cmp_objs_def)
next
  case False
  have "(if la < lb then la else lb) = min la lb" "(if lb < la then lb else la) = min la lb"
    by (auto simp add: min_def)
  then have fit1: "0 \<le> sint (if la < lb then la else lb)"
    and fit2: "0 \<le> sint (if lb < la then lb else la)"
    using assms(2) by simp_all
  show ?thesis
  proof (cases "op = MP_BINARY_OP_LESS \<or> op = MP_BINARY_OP_LESS_EQUAL")
    case True
    then show ?thesis
      using cmp_bodies_agree [of "if op = MP_BINARY_OP_LESS then MP_BINARY_OP_MORE else MP_BINARY_OP_MORE_EQUAL" lb la b a] fit2
      by (auto simp add: mp_seq_cmp_bytes_def mp_seq_cmp_objs_def SWAP_less_def)
  next
    case no_swap: False
    then have "op = MP_BINARY_OP_MORE \<or> op = MP_BINARY_OP_MORE_EQUAL \<or> op = MP_BINARY_OP_EQUAL"
      using assms(1) by (cases op) simp_all
    then show ?thesis
      using cmp_bodies_agree [of op la lb a b] fit1 False no_swap
      by (auto simp add: mp_seq_cmp_bytes_def mp_seq_cmp_objs_def SWAP_less_def)
  qed
qed

text \<open>
  C10 (the byte comparator and the generic comparator agree): for each of the five
  operators and all byte sequences, \<open>mp_seq_cmp_bytes\<close> returns what
  \<open>mp_seq_cmp_objs\<close> returns with equality of bytes for \<open>mp_obj_equal\<close> and the order
  of bytes for \<open>mp_binary_op\<close>.

  The two functions do not agree where the smaller count is above \<^verbatim>\<open>INT_MAX\<close>:
  \<open>mp_seq_cmp_bytes\<close> keeps the count in \<^verbatim>\<open>uint min_len\<close> and compares the bytes,
  \<open>mp_seq_cmp_objs\<close> narrows it to \<^verbatim>\<open>int len\<close>, which is negative, and compares
  nothing. With 32 bits, for two sequences of \<open>2^31\<close> bytes, every byte \<open>1\<close> in the
  first and \<open>2\<close> in the second, the byte comparator answers false for \<open>==\<close> and the
  generic comparator answers true.
\<close>

theorem byte_generic_equivalence_above_INT_MAX:
  "\<not> mp_seq_cmp_bytes MP_BINARY_OP_EQUAL
       (replicate 2147483648 1) (2147483648 :: 32 word) (replicate 2147483648 2) 2147483648 \<and>
   mp_seq_cmp_objs byte_equal byte_binary_op MP_BINARY_OP_EQUAL
     (replicate 2147483648 1) (2147483648 :: 32 word) (replicate 2147483648 2) 2147483648"
proof -
  let ?a = "replicate 2147483648 (1 :: byte)" and ?b = "replicate 2147483648 (2 :: byte)"
  have n: "unat (2147483648 :: 32 word) = 2147483648"
    by simp
  have "memcmp ?a ?b 2147483648 = uint (?a ! 0) - uint (?b ! 0)"
    by (rule memcmp_first_diff) simp_all
  then have m: "memcmp ?a ?b 2147483648 = - 1"
    by simp
  have bytes: "\<not> mp_seq_cmp_bytes MP_BINARY_OP_EQUAL ?a (2147483648 :: 32 word) ?b 2147483648"
    by (simp add: mp_seq_cmp_bytes_def SWAP_less_def n m)
  have s: "sint (2147483648 :: 32 word) = - 2147483648"
    by simp
  have l: "cmp_objs_loop byte_equal byte_binary_op MP_BINARY_OP_EQUAL ?a ?b (- 2147483648) 0 = None"
    by (rule cmp_objs_loop_negative) simp
  have objs: "mp_seq_cmp_objs byte_equal byte_binary_op MP_BINARY_OP_EQUAL
      ?a (2147483648 :: 32 word) ?b 2147483648"
    by (simp add: mp_seq_cmp_objs_def SWAP_less_def s l)
  from bytes objs show ?thesis by simp
qed

section \<open>Search and count\<close>

text \<open>
  The search loop ends without a result exactly when no element from \<open>i\<close> up to
  \<open>stop\<close> equals the value, and otherwise returns the first index that does. The
  count loop adds the number of such elements to its counter.
\<close>

declare index_loop.simps [simp del]

declare count_loop.simps [simp del]

lemma index_loop_none:
  "(index_loop eq items v stop i = None) = (\<forall>j. i \<le> j \<and> j < stop \<longrightarrow> \<not> eq (items ! j) v)"
proof (induction eq items v stop i rule: index_loop.induct)
  case (1 eq items v stop i)
  show ?case
  proof (cases "i < stop")
    case False
    then show ?thesis by (subst index_loop.simps) auto
  next
    case True
    show ?thesis
    proof (cases "eq (items ! i) v")
      case hit: True
      with True show ?thesis by (subst index_loop.simps) auto
    next
      case miss: False
      have "(\<forall>j. i + 1 \<le> j \<and> j < stop \<longrightarrow> \<not> eq (items ! j) v) =
            (\<forall>j. i \<le> j \<and> j < stop \<longrightarrow> \<not> eq (items ! j) v)"
        using miss by (metis Suc_eq_plus1 Suc_leI le_neq_implies_less order_less_imp_le Suc_le_eq)
      with True miss 1 show ?thesis by (subst index_loop.simps) simp
    qed
  qed
qed

lemma index_loop_first:
  assumes "i \<le> k" and "k < stop" and "eq (items ! k) v"
    and "\<forall>j. i \<le> j \<and> j < k \<longrightarrow> \<not> eq (items ! j) v"
  shows "index_loop eq items v stop i = Some k"
  using assms
proof (induction eq items v stop i rule: index_loop.induct)
  case (1 eq items v stop i)
  show ?case
  proof (cases "i = k")
    case True
    with 1(3,4) show ?thesis by (subst index_loop.simps) simp
  next
    case False
    with 1(2) have lt: "i < k" by simp
    then have il: "i < stop" using 1(3) by simp
    have miss: "\<not> eq (items ! i) v" using 1(5) lt by simp
    have "index_loop eq items v stop (i + 1) = Some k"
      using il miss lt 1(3,4,5) by (intro 1(1)) simp_all
    with il miss show ?thesis by (subst index_loop.simps) simp
  qed
qed

lemma count_loop_eq:
  "count_loop eq items v len i c = c + length (filter (\<lambda>j. eq (items ! j) v) [i..<len])"
proof (induction eq items v len i c rule: count_loop.induct)
  case (1 eq items v len i c)
  show ?case
  proof (cases "i < len")
    case False
    then show ?thesis by (subst count_loop.simps) simp
  next
    case True
    then have "[i..<len] = i # [i + 1..<len]" by (simp add: upt_conv_Cons)
    with True 1 show ?thesis by (subst count_loop.simps) simp
  qed
qed

lemma count_obj_zero:
  "(mp_seq_count_obj eq items len v = 0) = (\<forall>j<unat len. \<not> eq (items ! j) v)"
  by (auto simp add: mp_seq_count_obj_def count_loop_eq filter_empty_conv)

lemma index_obj_default:
  "mp_seq_index_obj eq gt gi items len 2 [self, v] =
    (case index_loop eq items v (unat len) 0 of
       Some i \<Rightarrow> Inr i
     | None \<Rightarrow> Inl (mp_obj_new_exception_msg mp_type_ValueError ''object not in sequence''))"
  by (simp add: mp_seq_index_obj_def)

text \<open>
  C2 (search/count agreement). For every sequence and every value, with the search
  called with two arguments (so over its default range, the whole sequence):
  \<open>mp_seq_count_obj\<close> returns \<open>0\<close> exactly when \<open>mp_seq_index_obj\<close> raises
  \<^verbatim>\<open>ValueError\<close> (\<^verbatim>\<open>object not in sequence\<close>), and when \<open>i\<close> is the smallest index
  below \<open>len\<close> whose element equals the value, \<open>mp_seq_index_obj\<close> returns \<open>i\<close>.
\<close>

theorem search_count_agreement:
  fixes len :: "'w::len word"
  shows "((mp_seq_count_obj eq items len v = 0) =
          (mp_seq_index_obj eq gt gi items len 2 [self, v] =
            Inl (mp_obj_new_exception_msg mp_type_ValueError ''object not in sequence''))) \<and>
         (\<forall>i. i < unat len \<and> eq (items ! i) v \<and> (\<forall>j<i. \<not> eq (items ! j) v) \<longrightarrow>
            mp_seq_index_obj eq gt gi items len 2 [self, v] = Inr i)"
proof (intro conjI allI impI)
  show "(mp_seq_count_obj eq items len v = 0) =
          (mp_seq_index_obj eq gt gi items len 2 [self, v] =
            Inl (mp_obj_new_exception_msg mp_type_ValueError ''object not in sequence''))"
    unfolding count_obj_zero index_obj_default
    using index_loop_none [of eq items v "unat len" 0]
    by (cases "index_loop eq items v (unat len) 0") auto
next
  fix i
  assume "i < unat len \<and> eq (items ! i) v \<and> (\<forall>j<i. \<not> eq (items ! j) v)"
  then have "index_loop eq items v (unat len) 0 = Some i"
    by (intro index_loop_first) simp_all
  then show "mp_seq_index_obj eq gt gi items len 2 [self, v] = Inr i"
    by (simp add: index_obj_default)
qed

theorem search_count_agreement_witness:
  "((mp_seq_count_obj byte_equal [10, 20, 30, 20] (4 :: 32 word) 20 = 0) =
    (mp_seq_index_obj byte_equal (\<lambda>_. ()) (\<lambda>_ _ _ _. Inr 0)
       [10, 20, 30, 20] (4 :: 32 word) 2 [0, 20] =
     Inl (mp_obj_new_exception_msg mp_type_ValueError ''object not in sequence''))) \<and>
   mp_seq_index_obj byte_equal (\<lambda>_. ()) (\<lambda>_ _ _ _. Inr 0)
     [10, 20, 30, 20] (4 :: 32 word) 2 [0, 20] = Inr 1"
proof -
  have "(1 :: nat) < unat (4 :: 32 word) \<and> byte_equal ([10, 20, 30, 20] ! 1) 20 \<and>
      (\<forall>j<1. \<not> byte_equal ([10, 20, 30, 20] ! j) 20)"
    by (simp add: byte_equal_def)
  with search_count_agreement
    [of byte_equal "[10, 20, 30, 20]" "4 :: 32 word" 20 "\<lambda>_. ()" "\<lambda>_ _ _ _. Inr 0" 0]
  show ?thesis
    by blast
qed

section \<open>Repetition\<close>








end
